theory Spec2Isabelle
  imports Complex_Main "HOL-Library.Sublist" "HOL-Library.Multiset" "HOL-Library.Word"
begin

section \<open>Numbers, errors and the runtime's set order\<close>

text \<open>
  The resistance values of \<^verbatim>\<open>resistance_manager.py\<close> are Python numbers: the ints
  \<^verbatim>\<open>1, 2, ..., 8192\<close>, the floats \<^verbatim>\<open>.25\<close> and \<^verbatim>\<open>.5\<close>, and the requested resistance.
  They are modelled as exact rationals. For the fixed catalogue this loses nothing: every
  number the solver computes is a multiple of 0.25 of magnitude below \<open>2^17\<close>, which a
  binary64 float holds exactly, and \<^verbatim>\<open>resistance*4\<close> is exact for every finite float.
\<close>

datatype py_error = IndexError | KeyError

text \<open>
  Python's builtin \<^verbatim>\<open>round(x)\<close> with one argument returns the nearest integer and sends a
  tie to the even neighbour.
\<close>

definition py_round :: "rat \<Rightarrow> int" where
  "py_round x =
     (let fl = \<lfloor>x\<rfloor>; d = x - of_int fl
      in if d < 1 / 2 then fl
         else if 1 / 2 < d then fl + 1
         else if even fl then fl else fl + 1)"

text \<open>
  \<^verbatim>\<open>set(a) - set(b)\<close> is a Python set, and \<^verbatim>\<open>for bank in bank0_close\<close> walks it in the
  order of the runtime's hash table, which the language does not fix. The order is a
  parameter \<open>set_diff :: rat list \<Rightarrow> rat list \<Rightarrow> rat list\<close> of the model: the sequence in
  which the set built as \<^verbatim>\<open>set(a) - set(b)\<close> is enumerated. Any runtime enumerates each
  member once.
\<close>

type_synonym set_order = "rat list \<Rightarrow> rat list \<Rightarrow> rat list"

definition set_order_ok :: "set_order \<Rightarrow> bool" where
  "set_order_ok set_diff \<longleftrightarrow>
     (\<forall>a b. set (set_diff a b) = set a - set b \<and> distinct (set_diff a b))"

section \<open>SubsetSum\<close>

type_synonym memo = "nat \<times> rat \<rightharpoonup> int"

text \<open>
  \<^verbatim>\<open>SubsetSum.f(v_list, i, target_Sum, memo)\<close>. The dictionary \<^verbatim>\<open>memo\<close> is mutated in
  place by the source; here it is passed in and returned.
\<close>

function f :: "rat list \<Rightarrow> nat \<Rightarrow> rat \<Rightarrow> memo \<Rightarrow> int \<times> memo" where
  "f v_list i target_Sum memo =
     (if i \<ge> length v_list then (if target_Sum = 0 then 1 else 0, memo)
      else (case memo (i, target_Sum) of
              None \<Rightarrow>
                (let (c1, memo1) = f v_list (i + 1) target_Sum memo;
                     (c2, memo2) = f v_list (i + 1) (target_Sum - v_list ! i) memo1;
                     count = c1 + c2
                 in (count, memo2((i, target_Sum) \<mapsto> count)))
            | Some c \<Rightarrow> (c, memo)))"
  by pat_completeness auto
termination
  by (relation "measure (\<lambda>(v_list, i, target_Sum, memo). length v_list - i)") auto

declare f.simps [simp del]

text \<open>
  The loop of \<^verbatim>\<open>SubsetSum.g\<close> over \<^verbatim>\<open>enumerate(zip(v_list, w_list))\<close>; its state is
  \<^verbatim>\<open>(subset, id_subset, target_Sum, memo)\<close>.
\<close>

fun g_loop :: "rat list \<Rightarrow> (nat \<times> rat \<times> rat) list
    \<Rightarrow> rat list \<times> rat list \<times> rat \<times> memo \<Rightarrow> rat list \<times> rat list \<times> rat \<times> memo" where
  "g_loop v_list [] st = st"
| "g_loop v_list ((i, x, y) # rest) (subset', id_subset, target_Sum, memo) =
     (let (c, memo') = f v_list (i + 1) (target_Sum - x) memo
      in if c > 0
         then g_loop v_list rest (subset' @ [x], id_subset @ [y], target_Sum - x, memo')
         else g_loop v_list rest (subset', id_subset, target_Sum, memo'))"

definition g :: "rat list \<Rightarrow> rat list \<Rightarrow> rat \<Rightarrow> memo \<Rightarrow> (rat list \<times> rat list) \<times> memo" where
  "g v_list w_list target_Sum memo =
     (let (subset', id_subset, target_Sum', memo') =
            g_loop v_list (enumerate 0 (zip v_list w_list)) ([], [], target_Sum, memo)
      in ((subset', id_subset), memo'))"

definition get_banks_to_leave_open :: "rat list \<Rightarrow> rat \<Rightarrow> rat \<times> rat list" where
  "get_banks_to_leave_open x_list target =
     (let memo = Map.empty;
          ((result, ids), memo') = g x_list x_list target memo
      in (sum_list result, result))"

section \<open>ResistanceManager\<close>

record ResistanceManager =
  device :: string
  topology :: string
  channel :: nat
  connections :: "(string \<times> string) list"
  bank_a :: "string list"
  bank_b :: "string list"

text \<open>The two local lists of \<^verbatim>\<open>get_banks_to_close_by_name\<close>.\<close>

definition even_bank :: "rat list" where
  "even_bank = [1 / 4, 1 / 2, 1, 2, 4, 8, 16, 32]"

definition odd_bank :: "rat list" where
  "odd_bank = [64, 128, 256, 512, 1024, 2048, 4096, 8192]"

text \<open>Line 74: \<^verbatim>\<open>resistance = round(resistance*4)/4\<close>.\<close>

definition quantize :: "rat \<Rightarrow> rat" where
  "quantize resistance = of_int (py_round (resistance * 4)) / 4"

text \<open>
  The two \<^verbatim>\<open>for bank in ...: connections.append((prefix, bank_dict[bank]))\<close> loops. A key
  missing from the dictionary raises \<^verbatim>\<open>KeyError\<close> and leaves the pairs appended so far.
\<close>

fun bypass_loop :: "string \<Rightarrow> (rat \<rightharpoonup> string) \<Rightarrow> rat list \<Rightarrow> (string \<times> string) list
    \<Rightarrow> py_error option \<times> (string \<times> string) list" where
  "bypass_loop pre bank_dict [] conns = (None, conns)"
| "bypass_loop pre bank_dict (bank # rest) conns =
     (case bank_dict bank of
        None \<Rightarrow> (Some KeyError, conns)
      | Some name \<Rightarrow> bypass_loop pre bank_dict rest (conns @ [(pre, name)]))"

text \<open>
  The two dictionaries \<^verbatim>\<open>bank0_dict\<close> and \<^verbatim>\<open>bank1_dict\<close> that
  \<^verbatim>\<open>get_banks_to_close_by_name\<close> fills from \<^verbatim>\<open>self.bank_a[2..9]\<close> and
  \<^verbatim>\<open>self.bank_b[2..9]\<close>.
\<close>

definition bank0_dict :: "ResistanceManager \<Rightarrow> rat \<rightharpoonup> string" where
  "bank0_dict self =
     [1 / 4 \<mapsto> bank_a self ! 2, 1 / 2 \<mapsto> bank_a self ! 3, 1 \<mapsto> bank_a self ! 4,
      2 \<mapsto> bank_a self ! 5, 4 \<mapsto> bank_a self ! 6, 8 \<mapsto> bank_a self ! 7,
      16 \<mapsto> bank_a self ! 8, 32 \<mapsto> bank_a self ! 9]"

definition bank1_dict :: "ResistanceManager \<Rightarrow> rat \<rightharpoonup> string" where
  "bank1_dict self =
     [64 \<mapsto> bank_b self ! 2, 128 \<mapsto> bank_b self ! 3, 256 \<mapsto> bank_b self ! 4,
      512 \<mapsto> bank_b self ! 5, 1024 \<mapsto> bank_b self ! 6, 2048 \<mapsto> bank_b self ! 7,
      4096 \<mapsto> bank_b self ! 8, 8192 \<mapsto> bank_b self ! 9]"

text \<open>
  \<^verbatim>\<open>get_banks_to_close_by_name(self, resistance)\<close>: the result is the returned list or the
  exception raised, together with the instance afterwards (\<^verbatim>\<open>self.connections\<close> is
  cleared and refilled in place; \<^verbatim>\<open>retConnections\<close> is a fresh list). The reads
  \<^verbatim>\<open>self.bank_a[0..9]\<close> and \<^verbatim>\<open>self.bank_b[0..9]\<close> all precede the first mutation, so a
  list shorter than 10 raises \<^verbatim>\<open>IndexError\<close> with the instance untouched.
\<close>

definition get_banks_to_close_by_name ::
    "set_order \<Rightarrow> ResistanceManager \<Rightarrow> rat
      \<Rightarrow> (py_error + (string \<times> string) list) \<times> ResistanceManager" where
  "get_banks_to_close_by_name set_diff self resistance =
     (let retConnections = []
      in if resistance \<ge> 0 \<and> resistance \<le> 16000 then
           (let resistance' = quantize resistance;
                (sum', values) = get_banks_to_leave_open (even_bank @ odd_bank) resistance';
                bank0_close = set_diff even_bank values;
                bank1_close = set_diff odd_bank values
            in if length (bank_a self) < 10 \<or> length (bank_b self) < 10
               then (Inl IndexError, self)
               else
                 (let prefix_bank_A = bank_a self ! 0;
                      prefix_bank_B = bank_b self ! 0;
                      a_engage = bank_a self ! 1;
                      b_engage = bank_b self ! 1;
                      conns0 = [];
                      conns1 = conns0 @ [(prefix_bank_A, a_engage)];
                      conns2 = conns1 @ [(prefix_bank_B, b_engage)];
                      conns3 = conns2 @ [(prefix_bank_A, prefix_bank_B)];
                      (err0, conns4) =
                        bypass_loop prefix_bank_A (bank0_dict self) bank0_close conns3
                  in case err0 of
                       Some e \<Rightarrow> (Inl e, self\<lparr>connections := conns4\<rparr>)
                     | None \<Rightarrow>
                         (let (err1, conns5) =
                                bypass_loop prefix_bank_B (bank1_dict self) bank1_close conns4
                          in case err1 of
                               Some e \<Rightarrow> (Inl e, self\<lparr>connections := conns5\<rparr>)
                             | None \<Rightarrow>
                                 (Inr (retConnections @ conns5),
                                  self\<lparr>connections := conns5\<rparr>))))
         else (Inr retConnections, self))"

subsection \<open>clearWholeChannel\<close>

text \<open>
  The switch session is outside the repository. Its two operations used here are taken as
  parameters over an arbitrary hardware state: \<^verbatim>\<open>can_connect\<close> reads the state,
  \<^verbatim>\<open>disconnect\<close> changes it. \<open>PathCapability\<close> lists the members of
  \<^verbatim>\<open>niswitch.PathCapability\<close>. Every call made on the session is appended to a log.
\<close>

datatype PathCapability =
  PATH_AVAILABLE | PATH_EXISTS | PATH_UNSUPPORTED | RESOURCE_IN_USE | SOURCE_CONFLICT
  | CHANNEL_NOT_AVAILABLE

record 'hw session =
  can_connect :: "'hw \<Rightarrow> string \<Rightarrow> string \<Rightarrow> PathCapability"
  disconnect :: "'hw \<Rightarrow> string \<Rightarrow> string \<Rightarrow> 'hw"

datatype call = CanConnect string string PathCapability | Disconnect string string

definition checkAndDisconnect ::
    "'hw session \<Rightarrow> string \<Rightarrow> string \<Rightarrow> 'hw \<times> call list \<Rightarrow> 'hw \<times> call list" where
  "checkAndDisconnect ni_session a b st =
     (let (hw, calls) = st;
          state = can_connect ni_session hw a b;
          calls1 = calls @ [CanConnect a b state]
      in if PATH_EXISTS = state
         then (disconnect ni_session hw a b, calls1 @ [Disconnect a b])
         else (hw, calls1))"

text \<open>\<^verbatim>\<open>for n in names: checkAndDisconnect(first, n)\<close>.\<close>

fun check_each :: "'hw session \<Rightarrow> string \<Rightarrow> string list \<Rightarrow> 'hw \<times> call list
    \<Rightarrow> 'hw \<times> call list" where
  "check_each ni_session first [] st = st"
| "check_each ni_session first (n # ns) st =
     check_each ni_session first ns (checkAndDisconnect ni_session first n st)"

text \<open>
  \<^verbatim>\<open>self.bank_a[1:]\<close> of an empty list is empty, so \<^verbatim>\<open>self.bank_a[0]\<close> is first read
  out of range at the last statement, which raises \<^verbatim>\<open>IndexError\<close> after both loops.
\<close>

definition clearWholeChannel ::
    "'hw session \<Rightarrow> ResistanceManager \<Rightarrow> 'hw \<times> call list
      \<Rightarrow> py_error option \<times> 'hw \<times> call list" where
  "clearWholeChannel ni_session self st =
     (let st1 = check_each ni_session (bank_a self ! 0) (drop 1 (bank_a self)) st;
          st2 = check_each ni_session (bank_b self ! 0) (drop 1 (bank_b self)) st1
      in if bank_a self = [] \<or> bank_b self = [] then (Some IndexError, st2)
         else (None, checkAndDisconnect ni_session (bank_a self ! 0) (bank_b self ! 0) st2))"

section \<open>Reference notions\<close>

text \<open>
  The number of sub-lists of \<open>xs\<close> (choices of positions) whose sum is \<open>r\<close>: what the
  feasibility count is specified to return.
\<close>

definition subset_count :: "rat list \<Rightarrow> rat \<Rightarrow> nat" where
  "subset_count xs r = length (filter (\<lambda>ys. sum_list ys = r) (subseqs xs))"

text \<open>A memo table is sound when every entry \<open>(i, r)\<close> holds the count for \<open>values[i:]\<close>.\<close>

definition memo_ok :: "rat list \<Rightarrow> memo \<Rightarrow> bool" where
  "memo_ok v_list memo \<longleftrightarrow>
     (\<forall>i r c. memo (i, r) = Some c \<longrightarrow> c = int (subset_count (drop i v_list) r))"

text \<open>The reconstruction loop, read without the memo table.\<close>

fun greedy :: "rat list \<Rightarrow> rat \<Rightarrow> rat list" where
  "greedy [] r = []"
| "greedy (x # xs) r =
     (if 0 < subset_count xs (r - x) then x # greedy xs (r - x) else greedy xs r)"

text \<open>The list \<open>c, 2c, 4c, ...\<close> of length \<open>n\<close>, and its members picked by the bits of \<open>k\<close>.\<close>

fun pows :: "rat \<Rightarrow> nat \<Rightarrow> rat list" where
  "pows c 0 = []"
| "pows c (Suc n) = c # pows (2 * c) n"

fun bits_sel :: "rat \<Rightarrow> nat \<Rightarrow> int \<Rightarrow> rat list" where
  "bits_sel c 0 k = []"
| "bits_sel c (Suc n) k =
     (if odd k then c # bits_sel (2 * c) n (k div 2) else bits_sel (2 * c) n (k div 2))"

text \<open>
  The direct binary decomposition of the specification: \<open>t / 0.25\<close> written as a 16-bit
  value, bit \<open>j\<close> selecting the \<open>j\<close>-th catalogue value (0.25 is bit 0, 8192 is bit 15).
\<close>

definition binary_reference :: "rat \<Rightarrow> rat list" where
  "binary_reference t =
     map (\<lambda>j. (even_bank @ odd_bank) ! j)
       (filter (\<lambda>j. bit (word_of_int \<lfloor>t * 4\<rfloor> :: 16 word) j) [0..<16])"

text \<open>
  The bank layout: index 0 is the trunk, index 1 the engage channel, index \<open>j + 2\<close> the
  bypass channel of the bank's \<open>j\<close>-th value.
\<close>

fun position :: "rat \<Rightarrow> rat list \<Rightarrow> nat" where
  "position v [] = 0"
| "position v (x # xs) = (if x = v then 0 else Suc (position v xs))"

definition bypass_pairs :: "string list \<Rightarrow> rat list \<Rightarrow> rat list \<Rightarrow> (string \<times> string) list" where
  "bypass_pairs names bank vs = map (\<lambda>v. (names ! 0, names ! (position v bank + 2))) vs"

definition unconditional :: "ResistanceManager \<Rightarrow> (string \<times> string) list" where
  "unconditional self =
     [(bank_a self ! 0, bank_a self ! 1), (bank_b self ! 0, bank_b self ! 1),
      (bank_a self ! 0, bank_b self ! 0)]"

text \<open>
  The list \<^verbatim>\<open>values\<close> that line 86 of \<^verbatim>\<open>get_banks_to_close_by_name\<close> receives from the
  solver for a request in range: the values left open.
\<close>

definition active_values :: "rat \<Rightarrow> rat list" where
  "active_values resistance =
     snd (get_banks_to_leave_open (even_bank @ odd_bank) (quantize resistance))"

text \<open>
  A closure plan whose bypass closures follow a given enumeration order of the two sets.
\<close>

definition ordered_plan ::
    "set_order \<Rightarrow> ResistanceManager \<Rightarrow> rat list \<Rightarrow> (string \<times> string) list" where
  "ordered_plan set_diff self active =
     unconditional self
     @ bypass_pairs (bank_a self) even_bank (set_diff even_bank active)
     @ bypass_pairs (bank_b self) odd_bank (set_diff odd_bank active)"

text \<open>
  The closure plan in the order the specification describes: the unconditional closures,
  then the bypasses of Bank A in ascending catalogue order, then those of Bank B.
\<close>

definition ascending_plan :: "ResistanceManager \<Rightarrow> rat list \<Rightarrow> (string \<times> string) list" where
  "ascending_plan self active =
     unconditional self
     @ bypass_pairs (bank_a self) even_bank (filter (\<lambda>v. v \<notin> set active) even_bank)
     @ bypass_pairs (bank_b self) odd_bank (filter (\<lambda>v. v \<notin> set active) odd_bank)"

text \<open>
  One admissible enumeration order. For the full banks it is the order in which
  CPython 3.11 on a 64-bit machine enumerates \<^verbatim>\<open>set(even_bank)\<close> and \<^verbatim>\<open>set(odd_bank)\<close>:
  the table has 32 slots, \<^verbatim>\<open>hash(32)\<close> falls on the slot of 0.25 and is probed to a slot
  before those of 8 and 16.
\<close>

definition table_order :: set_order where
  "table_order a b =
     (let table = [1 / 4, 1 / 2, 2, 1, 4, 32, 8, 16,
                   64, 256, 128, 512, 1024, 2048, 4096, 8192]
      in filter (\<lambda>x. x \<in> set a \<and> x \<notin> set b) table
         @ filter (\<lambda>x. x \<notin> set table \<and> x \<notin> set b) (remdups a))"

text \<open>A manager of channel 0 with the channel names of the card.\<close>

definition example_manager :: ResistanceManager where
  "example_manager =
     \<lparr>device = ''PXI1Slot7'', topology = ''2722/Independent'', channel = 0, connections = [],
      bank_a = [''b0'', ''b0engage'', ''b0r1'', ''b0r2'', ''b0r3'', ''b0r4'', ''b0r5'',
                ''b0r6'', ''b0r7'', ''b0r8''],
      bank_b = [''b1'', ''b1engage'', ''b1r1'', ''b1r2'', ''b1r3'', ''b1r4'', ''b1r5'',
                ''b1r6'', ''b1r7'', ''b1r8'']\<rparr>"

text \<open>
  The pairs \<^verbatim>\<open>clearWholeChannel\<close> has to visit, and the discipline on the session log:
  for each pair in turn one query answering the state the hardware is in at that moment,
  followed by a disconnect of the same pair exactly when the answer is \<open>PATH_EXISTS\<close>.
\<close>

definition pairs_to_clear :: "ResistanceManager \<Rightarrow> (string \<times> string) list" where
  "pairs_to_clear self =
     map (\<lambda>n. (bank_a self ! 0, n)) (drop 1 (bank_a self))
     @ map (\<lambda>n. (bank_b self ! 0, n)) (drop 1 (bank_b self))
     @ [(bank_a self ! 0, bank_b self ! 0)]"

fun guarded :: "'hw session \<Rightarrow> 'hw \<Rightarrow> call list \<Rightarrow> (string \<times> string) list \<Rightarrow> bool" where
  "guarded ni hw [] ps = (ps = [])"
| "guarded ni hw (Disconnect a b # calls) ps = False"
| "guarded ni hw (CanConnect a b s # calls) ps =
     (case ps of
        [] \<Rightarrow> False
      | (pa, pb) # ps' \<Rightarrow>
          a = pa \<and> b = pb \<and> s = can_connect ni hw a b
          \<and> (if s = PATH_EXISTS
               then (case calls of
                       Disconnect a' b' # calls' \<Rightarrow>
                         a' = a \<and> b' = b \<and> guarded ni (disconnect ni hw a b) calls' ps'
                     | _ \<Rightarrow> False)
               else guarded ni hw calls ps'))"

text \<open>The hardware state reached by replaying the disconnects of a log.\<close>

fun replay :: "'hw session \<Rightarrow> 'hw \<Rightarrow> call list \<Rightarrow> 'hw" where
  "replay ni hw [] = hw"
| "replay ni hw (CanConnect a b s # calls) = replay ni hw calls"
| "replay ni hw (Disconnect a b # calls) = replay ni (disconnect ni hw a b) calls"

text \<open>The log that this discipline prescribes for a list of pairs.\<close>

fun expected :: "'hw session \<Rightarrow> 'hw \<Rightarrow> (string \<times> string) list \<Rightarrow> call list" where
  "expected ni hw [] = []"
| "expected ni hw ((a, b) # ps) =
     (let s = can_connect ni hw a b
      in if s = PATH_EXISTS
         then CanConnect a b s # Disconnect a b # expected ni (disconnect ni hw a b) ps
         else CanConnect a b s # expected ni hw ps)"

text \<open>
  A session over a concrete hardware state, the set of connected pairs, for use in
  examples.
\<close>

definition example_session :: "(string \<times> string) set session" where
  "example_session =
     \<lparr>can_connect = (\<lambda>hw a b. if (a, b) \<in> hw then PATH_EXISTS else PATH_AVAILABLE),
      disconnect = (\<lambda>hw a b. hw - {(a, b)})\<rparr>"

section \<open>The feasibility count and the reconstruction\<close>

lemma subset_count_Nil: "subset_count [] r = (if r = 0 then 1 else 0)"
  by (simp add: subset_count_def)

lemma subset_count_Cons:
  "subset_count (x # xs) r = subset_count xs r + subset_count xs (r - x)"
proof -
  have "(\<lambda>ys. sum_list ys = r) \<circ> (#) x = (\<lambda>ys. sum_list ys = r - x)"
    by (auto simp: fun_eq_iff)
  then show ?thesis
    by (simp add: subset_count_def Let_def filter_map)
qed

lemma subset_count_pos_iff:
  "0 < subset_count xs r \<longleftrightarrow> (\<exists>ys. subseq ys xs \<and> sum_list ys = r)"
proof -
  have "0 < subset_count xs r \<longleftrightarrow> filter (\<lambda>ys. sum_list ys = r) (subseqs xs) \<noteq> []"
    by (simp add: subset_count_def)
  also have "\<dots> \<longleftrightarrow> (\<exists>ys \<in> set (subseqs xs). sum_list ys = r)"
    by (simp add: filter_empty_conv)
  finally show ?thesis by auto
qed

lemma f_correct:
  "memo_ok v m \<Longrightarrow>
     fst (f v i r m) = int (subset_count (drop i v) r) \<and> memo_ok v (snd (f v i r m))"
proof (induction v i r m rule: f.induct)
  case (1 v i r m)
  show ?case
  proof (cases "length v \<le> i")
    case True
    then show ?thesis using "1.prems"
      by (simp add: f.simps [of v i r m] subset_count_Nil)
  next
    case False
    then have dr: "drop i v = v ! i # drop (Suc i) v"
      by (simp add: Cons_nth_drop_Suc)
    show ?thesis
    proof (cases "m (i, r)")
      case (Some c)
      then show ?thesis using False "1.prems"
        by (simp add: f.simps [of v i r m] memo_ok_def)
    next
      case None
      obtain c1 m1 where e1: "f v (i + 1) r m = (c1, m1)" by (cases "f v (i + 1) r m")
      obtain c2 m2 where e2: "f v (i + 1) (r - v ! i) m1 = (c2, m2)"
        by (cases "f v (i + 1) (r - v ! i) m1")
      from "1.IH"(1) [OF False None "1.prems"] e1
      have c1: "c1 = int (subset_count (drop (Suc i) v) r)" and ok1: "memo_ok v m1"
        by simp_all
      from "1.IH"(2) [OF False None _ _ ok1, of "(c1, m1)" c1] e1 e2
      have c2: "c2 = int (subset_count (drop (Suc i) v) (r - v ! i))" and ok2: "memo_ok v m2"
        by simp_all
      have res: "f v i r m = (c1 + c2, m2((i, r) \<mapsto> c1 + c2))"
        using False None e1 e2 by (simp add: f.simps [of v i r m] Let_def)
      have tot: "c1 + c2 = int (subset_count (drop i v) r)"
        by (simp add: dr subset_count_Cons c1 c2)
      have okf: "memo_ok v (m2((i, r) \<mapsto> c1 + c2))"
        using ok2 tot by (auto simp: memo_ok_def)
      show ?thesis unfolding res fst_conv snd_conv using tot okf by blast
    qed
  qed
qed


lemma g_loop_greedy:
  "memo_ok v m \<Longrightarrow> drop i v = xs \<Longrightarrow> i \<le> length v \<Longrightarrow>
     (\<exists>m'. g_loop v (enumerate i (zip xs xs)) (acc, ids, r, m) =
            (acc @ greedy xs r, ids @ greedy xs r, r - sum_list (greedy xs r), m')
          \<and> memo_ok v m')"
proof (induction xs arbitrary: i acc ids r m)
  case Nil
  then show ?case by simp
next
  case (Cons x xs)
  from Cons.prems(2) have lt: "i < length v"
    by (cases "i < length v") auto
  with Cons.prems(2) have dr: "drop (Suc i) v = xs"
    by (metis Cons_nth_drop_Suc list.inject)
  obtain c m1 where e: "f v (i + 1) (r - x) m = (c, m1)" by (cases "f v (i + 1) (r - x) m")
  from f_correct [OF Cons.prems(1), of "i + 1" "r - x"] e dr
  have c: "c = int (subset_count xs (r - x))" and ok1: "memo_ok v m1"
    by simp_all
  show ?case
  proof (cases "0 < subset_count xs (r - x)")
    case True
    from Cons.IH [OF ok1 dr, of "acc @ [x]" "ids @ [x]" "r - x"] lt
    obtain m' where
      "g_loop v (enumerate (Suc i) (zip xs xs)) (acc @ [x], ids @ [x], r - x, m1) =
         ((acc @ [x]) @ greedy xs (r - x), (ids @ [x]) @ greedy xs (r - x),
          r - x - sum_list (greedy xs (r - x)), m')" and "memo_ok v m'"
      by auto
    with True e c show ?thesis by (simp add: algebra_simps)
  next
    case False
    from Cons.IH [OF ok1 dr, of acc ids r] lt
    obtain m' where
      "g_loop v (enumerate (Suc i) (zip xs xs)) (acc, ids, r, m1) =
         (acc @ greedy xs r, ids @ greedy xs r, r - sum_list (greedy xs r), m')"
      and "memo_ok v m'"
      by auto
    with False e c show ?thesis by simp
  qed
qed

lemma memo_ok_empty: "memo_ok v Map.empty"
  by (simp add: memo_ok_def)

lemma get_banks_to_leave_open_greedy:
  "get_banks_to_leave_open x_list target = (sum_list (greedy x_list target), greedy x_list target)"
proof -
  from g_loop_greedy [OF memo_ok_empty, of 0 x_list x_list "[]" "[]" target]
  obtain m' where
    "g_loop x_list (enumerate 0 (zip x_list x_list)) ([], [], target, Map.empty) =
       (greedy x_list target, greedy x_list target,
        target - sum_list (greedy x_list target), m')"
    by auto
  then show ?thesis
    by (simp add: get_banks_to_leave_open_def g_def)
qed

lemma greedy_subseq: "subseq (greedy xs r) xs"
  by (induction xs arbitrary: r) auto

lemma greedy_sum: "0 < subset_count xs r \<Longrightarrow> sum_list (greedy xs r) = r"
proof (induction xs arbitrary: r)
  case Nil
  then show ?case by (simp add: subset_count_Nil split: if_splits)
next
  case (Cons x xs)
  show ?case
  proof (cases "0 < subset_count xs (r - x)")
    case True
    with Cons.IH [of "r - x"] show ?thesis by simp
  next
    case False
    with Cons.prems have "0 < subset_count xs r"
      by (simp add: subset_count_Cons)
    with False Cons.IH [of r] show ?thesis by simp
  qed
qed


section \<open>Sub-lists of a list of doubling values\<close>

lemma subseq_Cons_cases:
  "subseq ys (x # xs) \<Longrightarrow> (\<exists>ys'. ys = x # ys' \<and> subseq ys' xs) \<or> subseq ys xs"
  by (cases ys) (auto split: if_splits)

lemma of_int_halves: "(of_int k :: rat) = 2 * of_int (k div 2) + (if odd k then 1 else 0)"
proof -
  have "k = 2 * (k div 2) + (if odd k then 1 else 0)"
    by (auto elim: oddE)
  then have "(of_int k :: rat) = of_int (2 * (k div 2) + (if odd k then 1 else 0))"
    by simp
  then show ?thesis by (simp split: if_splits)
qed

lemma subseq_pows:
  "subseq ys (pows c n) \<Longrightarrow>
     \<exists>m. 0 \<le> m \<and> m < 2 ^ n \<and> sum_list ys = c * of_int m \<and> ys = bits_sel c n m"
proof (induction n arbitrary: c ys)
  case 0
  then have "ys = []" by (cases ys) simp_all
  then show ?case by (intro exI [of _ 0]) simp
next
  case (Suc n)
  from Suc.prems have "subseq ys (c # pows (2 * c) n)" by simp
  from subseq_Cons_cases [OF this]
  consider ys' where "ys = c # ys'" "subseq ys' (pows (2 * c) n)"
    | "subseq ys (pows (2 * c) n)"
    by blast
  then show ?case
  proof cases
    case 1
    from Suc.IH [OF 1(2)] obtain m where m: "0 \<le> m" "m < 2 ^ n"
      "sum_list ys' = 2 * c * of_int m" "ys' = bits_sel (2 * c) n m" by blast
    show ?thesis
    proof (intro exI [of _ "2 * m + 1"] conjI)
      show "0 \<le> 2 * m + 1" using m(1) by simp
      show "2 * m + 1 < 2 ^ Suc n" using m(2) by simp
      show "sum_list ys = c * of_int (2 * m + 1)"
        using 1(1) m(3) by (simp add: algebra_simps)
      show "ys = bits_sel c (Suc n) (2 * m + 1)"
        using 1(1) m(4) by simp
    qed
  next
    case 2
    from Suc.IH [OF 2] obtain m where m: "0 \<le> m" "m < 2 ^ n"
      "sum_list ys = 2 * c * of_int m" "ys = bits_sel (2 * c) n m" by blast
    show ?thesis
    proof (intro exI [of _ "2 * m"] conjI)
      show "0 \<le> 2 * m" using m(1) by simp
      show "2 * m < 2 ^ Suc n" using m(2) by simp
      show "sum_list ys = c * of_int (2 * m)"
        using m(3) by (simp add: algebra_simps)
      show "ys = bits_sel c (Suc n) (2 * m)"
        using m(4) by simp
    qed
  qed
qed

lemma bits_sel_pows:
  "0 \<le> k \<Longrightarrow> k < 2 ^ n \<Longrightarrow>
     subseq (bits_sel c n k) (pows c n) \<and> sum_list (bits_sel c n k) = c * of_int k"
proof (induction n arbitrary: c k)
  case 0
  then show ?case by simp
next
  case (Suc n)
  from Suc.prems have "0 \<le> k div 2" "k div 2 < 2 ^ n" by simp_all
  from Suc.IH [OF this, of "2 * c"]
  have sub: "subseq (bits_sel (2 * c) n (k div 2)) (pows (2 * c) n)"
    and s: "sum_list (bits_sel (2 * c) n (k div 2)) = 2 * c * of_int (k div 2)"
    by simp_all
  have "sum_list (bits_sel c (Suc n) k) = c * (2 * of_int (k div 2) + (if odd k then 1 else 0))"
    using s by (simp add: algebra_simps)
  then have "sum_list (bits_sel c (Suc n) k) = c * of_int k"
    using of_int_halves [of k] by simp
  moreover have "subseq (bits_sel c (Suc n) k) (pows c (Suc n))"
  proof (cases "odd k")
    case True
    then show ?thesis using sub by simp
  next
    case False
    have "subseq (bits_sel (2 * c) n (k div 2)) (c # pows (2 * c) n)"
      using sub by (rule list_emb_Cons)
    then show ?thesis using False by simp
  qed
  ultimately show ?case by simp
qed

lemma bits_sel_filter:
  "map (\<lambda>j. pows c n ! j) (filter (\<lambda>j. bit k j) [0..<n]) = bits_sel c n k"
proof (induction n arbitrary: c k)
  case 0
  then show ?case by simp
next
  case (Suc n)
  have upt: "[0..<Suc n] = 0 # map Suc [0..<n]"
    by (simp add: upt_conv_Cons map_Suc_upt del: upt_Suc)
  have "map (\<lambda>j. pows c (Suc n) ! j) (filter (\<lambda>j. bit k j) (map Suc [0..<n])) =
        map (\<lambda>j. pows (2 * c) n ! j) (filter (\<lambda>j. bit (k div 2) j) [0..<n])"
    by (simp add: filter_map comp_def bit_Suc)
  also have "\<dots> = bits_sel (2 * c) n (k div 2)" by (rule Suc.IH)
  finally show ?case
    unfolding upt by (simp add: bit_0 del: upt_Suc)
qed

lemma catalog_pows: "even_bank @ odd_bank = pows (1 / 4) 16"
  by (simp add: even_bank_def odd_bank_def eval_nat_numeral)

lemma binary_reference_bits:
  "binary_reference t = bits_sel (1 / 4) 16 \<lfloor>t * 4\<rfloor>"
proof -
  have "filter (\<lambda>j. bit (word_of_int \<lfloor>t * 4\<rfloor> :: 16 word) j) [0..<16] =
        filter (\<lambda>j. bit \<lfloor>t * 4\<rfloor> j) [0..<16]"
    by (rule filter_cong) (auto simp: bit_word_of_int_iff)
  then show ?thesis
    by (simp only: binary_reference_def catalog_pows bits_sel_filter)
qed

lemma catalog_unique:
  assumes "subseq ys (even_bank @ odd_bank)" and "sum_list ys = t"
  shows "ys = binary_reference t"
proof -
  from subseq_pows [of ys "1 / 4" 16] assms(1)
  obtain m where m: "sum_list ys = 1 / 4 * of_int m" "ys = bits_sel (1 / 4) 16 m"
    by (auto simp: catalog_pows)
  from m(1) assms(2) have "t * 4 = of_int m" by simp
  then have "\<lfloor>t * 4\<rfloor> = m" by simp
  with m(2) show ?thesis by (simp add: binary_reference_bits)
qed

section \<open>The closure plan\<close>

lemma catalog_solution:
  assumes "subseq ys (even_bank @ odd_bank)" and "sum_list ys = t"
  shows "get_banks_to_leave_open (even_bank @ odd_bank) t = (t, ys)"
proof -
  let ?cat = "even_bank @ odd_bank"
  from assms have pos: "0 < subset_count ?cat t"
    unfolding subset_count_pos_iff by blast
  have "greedy ?cat t = binary_reference t"
    using greedy_subseq [of ?cat t] greedy_sum [OF pos] by (rule catalog_unique)
  moreover have "ys = binary_reference t" using assms by (rule catalog_unique)
  ultimately show ?thesis using assms(2) by (simp add: get_banks_to_leave_open_greedy)
qed

lemma quantize_quarter: "quantize (of_int k / 4) = of_int k / 4"
  by (simp add: quantize_def py_round_def)

lemma active_values_quarter:
  assumes "0 \<le> k" and "k < 65536"
  shows "get_banks_to_leave_open (even_bank @ odd_bank) (quantize (of_int k / 4))
           = (of_int k / 4, bits_sel (1 / 4) 16 k)"
proof -
  from bits_sel_pows [OF assms(1), of 16 "1 / 4"] assms(2)
  have "subseq (bits_sel (1 / 4) 16 k) (even_bank @ odd_bank)"
    and "sum_list (bits_sel (1 / 4) 16 k) = of_int k / 4"
    by (simp_all add: catalog_pows)
  then show ?thesis
    unfolding quantize_quarter by (rule catalog_solution)
qed

lemma bypass_loop_ok:
  "\<forall>v \<in> set vs. bank_dict v = Some (nm v) \<Longrightarrow>
     bypass_loop pre bank_dict vs conns = (None, conns @ map (\<lambda>v. (pre, nm v)) vs)"
  by (induction vs arbitrary: conns) simp_all

lemma bank0_dict_position:
  "v \<in> set even_bank \<Longrightarrow> bank0_dict self v = Some (bank_a self ! (position v even_bank + 2))"
  by (auto simp: even_bank_def bank0_dict_def eval_nat_numeral)

lemma bank1_dict_position:
  "v \<in> set odd_bank \<Longrightarrow> bank1_dict self v = Some (bank_b self ! (position v odd_bank + 2))"
  by (auto simp: odd_bank_def bank1_dict_def eval_nat_numeral)

lemma plan_in_range:
  assumes "0 \<le> r" and "r \<le> 16000"
    and "10 \<le> length (bank_a self)" and "10 \<le> length (bank_b self)"
    and "set_order_ok set_diff"
  shows "get_banks_to_close_by_name set_diff self r =
           (Inr (ordered_plan set_diff self (active_values r)),
            self\<lparr>connections := ordered_plan set_diff self (active_values r)\<rparr>)"
proof -
  obtain s vs where gl: "get_banks_to_leave_open (even_bank @ odd_bank) (quantize r) = (s, vs)"
    by (cases "get_banks_to_leave_open (even_bank @ odd_bank) (quantize r)")
  have vs: "active_values r = vs" by (simp add: active_values_def gl)
  have "\<forall>v \<in> set (set_diff even_bank vs).
          bank0_dict self v = Some (bank_a self ! (position v even_bank + 2))"
    using assms(5) by (simp add: set_order_ok_def bank0_dict_position)
  note e0 = bypass_loop_ok [OF this]
  have "\<forall>v \<in> set (set_diff odd_bank vs).
          bank1_dict self v = Some (bank_b self ! (position v odd_bank + 2))"
    using assms(5) by (simp add: set_order_ok_def bank1_dict_position)
  note e1 = bypass_loop_ok [OF this]
  show ?thesis
    using assms(1-4)
    by (simp add: get_banks_to_close_by_name_def Let_def gl e0 e1 vs ordered_plan_def
        unconditional_def bypass_pairs_def)
qed

lemma dict_connections_update [simp]:
  "bank0_dict (self\<lparr>connections := c\<rparr>) = bank0_dict self"
  "bank1_dict (self\<lparr>connections := c\<rparr>) = bank1_dict self"
  by (simp_all add: bank0_dict_def bank1_dict_def)

lemma get_banks_shape:
  "\<exists>p. (\<forall>c. get_banks_to_close_by_name set_diff (self\<lparr>connections := c\<rparr>) r
              = (p, self\<lparr>connections := c\<rparr>))
     \<or> (\<exists>conns. \<forall>c. get_banks_to_close_by_name set_diff (self\<lparr>connections := c\<rparr>) r
              = (p, self\<lparr>connections := conns\<rparr>))"
proof (cases "0 \<le> r \<and> r \<le> 16000")
  case False
  then have "\<forall>c. get_banks_to_close_by_name set_diff (self\<lparr>connections := c\<rparr>) r
      = (Inr [], self\<lparr>connections := c\<rparr>)"
    by (auto simp: get_banks_to_close_by_name_def)
  then show ?thesis by blast
next
  case True
  show ?thesis
  proof (cases "length (bank_a self) < 10 \<or> length (bank_b self) < 10")
    case short: True
    with True have "\<forall>c. get_banks_to_close_by_name set_diff (self\<lparr>connections := c\<rparr>) r
        = (Inl IndexError, self\<lparr>connections := c\<rparr>)"
      by (auto simp: get_banks_to_close_by_name_def Let_def split: prod.splits)
    then show ?thesis by blast
  next
    case long: False
    obtain s vs where gl: "get_banks_to_leave_open (even_bank @ odd_bank) (quantize r) = (s, vs)"
      by (cases "get_banks_to_leave_open (even_bank @ odd_bank) (quantize r)")
    obtain e0 c4 where l0: "bypass_loop (bank_a self ! 0) (bank0_dict self)
        (set_diff even_bank vs)
        [(bank_a self ! 0, bank_a self ! 1), (bank_b self ! 0, bank_b self ! 1),
         (bank_a self ! 0, bank_b self ! 0)] = (e0, c4)"
      by (rule prod.exhaust)
    obtain e1 c5 where l1: "bypass_loop (bank_b self ! 0) (bank1_dict self)
        (set_diff odd_bank vs) c4 = (e1, c5)"
      by (rule prod.exhaust)
    show ?thesis
    proof (cases e0)
      case (Some e)
      with True long gl l0
      have "\<forall>c. get_banks_to_close_by_name set_diff (self\<lparr>connections := c\<rparr>) r
          = (Inl e, self\<lparr>connections := c4\<rparr>)"
        by (simp add: get_banks_to_close_by_name_def Let_def)
      then show ?thesis by blast
    next
      case None
      show ?thesis
      proof (cases e1)
        case (Some e)
        with None True long gl l0 l1
        have "\<forall>c. get_banks_to_close_by_name set_diff (self\<lparr>connections := c\<rparr>) r
            = (Inl e, self\<lparr>connections := c5\<rparr>)"
          by (simp add: get_banks_to_close_by_name_def Let_def)
        then show ?thesis by blast
      next
        case e1: None
        with None True long gl l0 l1
        have "\<forall>c. get_banks_to_close_by_name set_diff (self\<lparr>connections := c\<rparr>) r
            = (Inr c5, self\<lparr>connections := c5\<rparr>)"
          by (simp add: get_banks_to_close_by_name_def Let_def)
        then show ?thesis by blast
      qed
    qed
  qed
qed

lemma order_from_table:
  assumes "distinct table"
  shows "set (filter (\<lambda>x. x \<in> set a \<and> x \<notin> set b) table
              @ filter (\<lambda>x. x \<notin> set table \<and> x \<notin> set b) (remdups a)) = set a - set b"
    and "distinct (filter (\<lambda>x. x \<in> set a \<and> x \<notin> set b) table
              @ filter (\<lambda>x. x \<notin> set table \<and> x \<notin> set b) (remdups a))"
  using assms by auto

lemma table_distinct:
  "distinct [1 / 4, 1 / 2, 2, 1, 4, 32, 8, 16, 64, 256, 128, 512, 1024, 2048, 4096, 8192 :: rat]"
  by simp

lemma table_order_ok: "set_order_ok table_order"
  unfolding set_order_ok_def table_order_def Let_def
  using order_from_table [OF table_distinct] by blast

lemma example_lengths:
  "10 \<le> length (bank_a example_manager)" "10 \<le> length (bank_b example_manager)"
  by (simp_all add: example_manager_def)



lemma bank_distinct: "distinct even_bank" "distinct odd_bank"
  by (simp_all add: even_bank_def odd_bank_def)

lemma mset_set_order:
  assumes "set_order_ok set_diff" and "distinct a"
  shows "mset (set_diff a b) = mset (filter (\<lambda>v. v \<notin> set b) a)"
proof -
  from assms(1) have "distinct (set_diff a b)" and "set (set_diff a b) = set a - set b"
    by (simp_all add: set_order_ok_def)
  moreover have "distinct (filter (\<lambda>v. v \<notin> set b) a)" using assms(2) by simp
  moreover have "set (filter (\<lambda>v. v \<notin> set b) a) = set a - set b" by auto
  ultimately show ?thesis
    using set_eq_iff_mset_eq_distinct by blast
qed

lemma bypass_pairs_mset:
  assumes "set_order_ok set_diff" and "distinct a"
  shows "mset (bypass_pairs names bank (set_diff a b))
       = mset (bypass_pairs names bank (filter (\<lambda>v. v \<notin> set b) a))"
  unfolding bypass_pairs_def mset_map mset_set_order [OF assms] by (rule refl)

lemma ordered_plan_mset:
  assumes "set_order_ok set_diff"
  shows "mset (ordered_plan set_diff self vs) = mset (ascending_plan self vs)"
  unfolding ordered_plan_def ascending_plan_def mset_append
    bypass_pairs_mset [OF assms bank_distinct(1)] bypass_pairs_mset [OF assms bank_distinct(2)]
  by (rule refl)

lemma quantize_67: "quantize 67 = 67"
  using quantize_quarter [of 268] by simp

lemma solve_67: "get_banks_to_leave_open (even_bank @ odd_bank) 67 = (67, [1, 2, 64])"
  by (rule catalog_solution) (simp_all add: even_bank_def odd_bank_def)

lemma active_values_67: "active_values 67 = [1, 2, 64]"
  by (simp add: active_values_def quantize_67 solve_67)

lemma ascending_plan_67:
  "ascending_plan self [1, 2, 64] =
     [(bank_a self ! 0, bank_a self ! 1), (bank_b self ! 0, bank_b self ! 1),
      (bank_a self ! 0, bank_b self ! 0),
      (bank_a self ! 0, bank_a self ! 2), (bank_a self ! 0, bank_a self ! 3),
      (bank_a self ! 0, bank_a self ! 6), (bank_a self ! 0, bank_a self ! 7),
      (bank_a self ! 0, bank_a self ! 8), (bank_a self ! 0, bank_a self ! 9),
      (bank_b self ! 0, bank_b self ! 3), (bank_b self ! 0, bank_b self ! 4),
      (bank_b self ! 0, bank_b self ! 5), (bank_b self ! 0, bank_b self ! 6),
      (bank_b self ! 0, bank_b self ! 7), (bank_b self ! 0, bank_b self ! 8),
      (bank_b self ! 0, bank_b self ! 9)]"
  by (simp add: ascending_plan_def unconditional_def bypass_pairs_def even_bank_def
      odd_bank_def eval_nat_numeral)

lemma active_values_0: "active_values 0 = []"
proof -
  have "quantize 0 = 0" using quantize_quarter [of 0] by simp
  moreover have "get_banks_to_leave_open (even_bank @ odd_bank) 0 = (0, [])"
    by (rule catalog_solution) simp_all
  ultimately show ?thesis by (simp add: active_values_def)
qed

lemma table_plan_0:
  "ordered_plan table_order example_manager [] =
     [(''b0'', ''b0engage''), (''b1'', ''b1engage''), (''b0'', ''b1''),
      (''b0'', ''b0r1''), (''b0'', ''b0r2''), (''b0'', ''b0r4''), (''b0'', ''b0r3''),
      (''b0'', ''b0r5''), (''b0'', ''b0r8''), (''b0'', ''b0r6''), (''b0'', ''b0r7''),
      (''b1'', ''b1r1''), (''b1'', ''b1r3''), (''b1'', ''b1r2''), (''b1'', ''b1r4''),
      (''b1'', ''b1r5''), (''b1'', ''b1r6''), (''b1'', ''b1r7''), (''b1'', ''b1r8'')]"
  by (simp add: ordered_plan_def unconditional_def bypass_pairs_def table_order_def
      even_bank_def odd_bank_def example_manager_def)

lemma ascending_plan_0:
  "ascending_plan example_manager [] =
     [(''b0'', ''b0engage''), (''b1'', ''b1engage''), (''b0'', ''b1''),
      (''b0'', ''b0r1''), (''b0'', ''b0r2''), (''b0'', ''b0r3''), (''b0'', ''b0r4''),
      (''b0'', ''b0r5''), (''b0'', ''b0r6''), (''b0'', ''b0r7''), (''b0'', ''b0r8''),
      (''b1'', ''b1r1''), (''b1'', ''b1r2''), (''b1'', ''b1r3''), (''b1'', ''b1r4''),
      (''b1'', ''b1r5''), (''b1'', ''b1r6''), (''b1'', ''b1r7''), (''b1'', ''b1r8'')]"
  by (simp add: ascending_plan_def unconditional_def bypass_pairs_def
      even_bank_def odd_bank_def example_manager_def)

section \<open>The session log of clearWholeChannel\<close>

lemma replay_append: "replay ni hw (xs @ ys) = replay ni (replay ni hw xs) ys"
  by (induction ni hw xs rule: replay.induct) simp_all

lemma expected_append:
  "expected ni hw (ps @ qs) =
     expected ni hw ps @ expected ni (replay ni hw (expected ni hw ps)) qs"
  by (induction ni hw ps rule: expected.induct) (simp_all add: Let_def)

lemma guarded_expected: "guarded ni hw (expected ni hw ps) ps"
proof (induction ps arbitrary: hw)
  case Nil
  then show ?case by simp
next
  case (Cons p ps)
  obtain a b where p: "p = (a, b)" by (cases p)
  show ?case
    using Cons.IH [of hw] Cons.IH [of "disconnect ni hw a b"]
    by (simp add: p Let_def)
qed

lemma checkAndDisconnect_expected:
  "checkAndDisconnect ni a b (hw, calls) =
     (replay ni hw (expected ni hw [(a, b)]), calls @ expected ni hw [(a, b)])"
  by (simp add: checkAndDisconnect_def Let_def)

lemma check_each_expected:
  "check_each ni first ns (hw, calls) =
     (replay ni hw (expected ni hw (map (\<lambda>n. (first, n)) ns)),
      calls @ expected ni hw (map (\<lambda>n. (first, n)) ns))"
proof (induction ns arbitrary: hw calls)
  case Nil
  then show ?case by simp
next
  case (Cons n ns)
  have "map (\<lambda>n. (first, n)) (n # ns) = [(first, n)] @ map (\<lambda>n. (first, n)) ns" by simp
  then show ?case
    unfolding check_each.simps checkAndDisconnect_expected Cons.IH
    by (simp only: expected_append replay_append append_assoc)
qed

lemma clearWholeChannel_expected:
  assumes "bank_a self \<noteq> []" and "bank_b self \<noteq> []"
  shows "clearWholeChannel ni self (hw, []) =
     (None, replay ni hw (expected ni hw (pairs_to_clear self)),
      expected ni hw (pairs_to_clear self))"
  using assms
  by (simp add: clearWholeChannel_def Let_def check_each_expected checkAndDisconnect_expected
      pairs_to_clear_def expected_append replay_append)

section \<open>Claims about the solver\<close>





text \<open>
  C2. For every target \<open>t\<close> that some subset \<open>ys\<close> of the 16 catalogue values achieves, the
  solver returns the sum \<open>t\<close> and the subset given by the binary digits of \<open>t / 0.25\<close> as
  a 16-bit value, and \<open>ys\<close> is that same subset: the achieving subset is unique.
\<close>

theorem solver_matches_binary_reference:
  assumes "subseq ys (even_bank @ odd_bank)" and "sum_list ys = t"
  shows "get_banks_to_leave_open (even_bank @ odd_bank) t = (t, binary_reference t)
    \<and> ys = binary_reference t"
proof -
  let ?cat = "even_bank @ odd_bank"
  from assms have pos: "0 < subset_count ?cat t"
    unfolding subset_count_pos_iff by blast
  have "greedy ?cat t = binary_reference t"
    using greedy_subseq [of ?cat t] greedy_sum [OF pos] by (rule catalog_unique)
  moreover have "sum_list (greedy ?cat t) = t" using pos by (rule greedy_sum)
  moreover have "ys = binary_reference t" using assms by (rule catalog_unique)
  ultimately show ?thesis by (simp add: get_banks_to_leave_open_greedy)
qed

theorem solver_matches_binary_reference_witness:
  "subseq [1, 2, 64] (even_bank @ odd_bank) \<and> sum_list [1, 2, 64 :: rat] = 67
   \<and> get_banks_to_leave_open (even_bank @ odd_bank) 67 = (67, binary_reference 67)
   \<and> [1, 2, 64] = binary_reference 67"
proof -
  have h1: "subseq [1, 2, 64] (even_bank @ odd_bank)"
    by (simp add: even_bank_def odd_bank_def)
  have h2: "sum_list [1, 2, 64 :: rat] = 67" by simp
  show ?thesis
    using h1 h2 solver_matches_binary_reference [OF h1 h2] by simp
qed

text \<open>
  C1. For every target \<open>t = k / 4\<close> with \<open>0 \<le> k \<le> 64000\<close>, that is every exact multiple
  of 0.25 in \<open>[0, 16000]\<close>: the range test passes, quantization leaves \<open>t\<close> as it is, the
  solver reports the sum \<open>t\<close>, the values it returns as left open are catalogue values
  that sum to \<open>t\<close> exactly, and on a manager with complete bank layouts
  \<^verbatim>\<open>get_banks_to_close_by_name\<close> returns a plan and raises nothing.
\<close>

theorem quarter_targets_decompose_exactly:
  assumes "0 \<le> k" and "k \<le> 64000"
  shows "0 \<le> (of_int k / 4 :: rat) \<and> (of_int k / 4 :: rat) \<le> 16000
    \<and> quantize (of_int k / 4) = of_int k / 4
    \<and> fst (get_banks_to_leave_open (even_bank @ odd_bank) (quantize (of_int k / 4)))
          = of_int k / 4
    \<and> sum_list (active_values (of_int k / 4)) = of_int k / 4
    \<and> subseq (active_values (of_int k / 4)) (even_bank @ odd_bank)
    \<and> (10 \<le> length (bank_a self) \<and> 10 \<le> length (bank_b self) \<and> set_order_ok set_diff \<longrightarrow>
          fst (get_banks_to_close_by_name set_diff self (of_int k / 4))
            = Inr (ordered_plan set_diff self (active_values (of_int k / 4))))"
proof -
  let ?t = "of_int k / 4 :: rat"
  have r0: "0 \<le> ?t" using assms(1) by simp
  have "(of_int k :: rat) \<le> of_int 64000" using assms(2) by (simp only: of_int_le_iff)
  then have r1: "?t \<le> 16000" by simp
  from assms have k: "k < 65536" by simp
  note sol = active_values_quarter [OF assms(1) k]
  from bits_sel_pows [OF assms(1), of 16 "1 / 4"] k
  have sub: "subseq (bits_sel (1 / 4) 16 k) (even_bank @ odd_bank)"
    and sm: "sum_list (bits_sel (1 / 4) 16 k) = ?t"
    by (simp_all add: catalog_pows)
  have av: "active_values ?t = bits_sel (1 / 4) 16 k"
    by (simp add: active_values_def sol)
  have plan: "fst (get_banks_to_close_by_name set_diff self ?t)
      = Inr (ordered_plan set_diff self (active_values ?t))"
    if "10 \<le> length (bank_a self)" "10 \<le> length (bank_b self)" "set_order_ok set_diff"
    using plan_in_range [OF r0 r1 that] by simp
  show ?thesis
    using r0 r1 quantize_quarter [of k] sol sub sm plan unfolding av by simp
qed

theorem quarter_targets_decompose_exactly_witness:
  "sum_list (active_values 67) = 67
   \<and> fst (get_banks_to_close_by_name table_order example_manager 67)
       = Inr (ordered_plan table_order example_manager (active_values 67))"
  using quarter_targets_decompose_exactly [of 268 example_manager table_order]
    table_order_ok example_lengths
  by simp

section \<open>Claims about the request and the plan\<close>






text \<open>
  C7. For a request of 67 ohms the solver returns the sum 67 and the values 1, 2 and 64,
  and on a manager with complete bank layouts the closure plan consists exactly of the
  two engage closures, the bridge between the two trunks, and one closure from the trunk
  to the bypass channel of each of the 13 other catalogue values: no closure for 1, 2
  or 64, none twice, in whatever order the two sets are enumerated.
\<close>

theorem decompose_67:
  assumes "10 \<le> length (bank_a self)" and "10 \<le> length (bank_b self)"
    and "set_order_ok set_diff"
  shows "get_banks_to_leave_open (even_bank @ odd_bank) (quantize 67) = (67, [1, 2, 64])
    \<and> (\<exists>plan. fst (get_banks_to_close_by_name set_diff self 67) = Inr plan
          \<and> mset plan = mset
             [(bank_a self ! 0, bank_a self ! 1), (bank_b self ! 0, bank_b self ! 1),
              (bank_a self ! 0, bank_b self ! 0),
              (bank_a self ! 0, bank_a self ! 2), (bank_a self ! 0, bank_a self ! 3),
              (bank_a self ! 0, bank_a self ! 6), (bank_a self ! 0, bank_a self ! 7),
              (bank_a self ! 0, bank_a self ! 8), (bank_a self ! 0, bank_a self ! 9),
              (bank_b self ! 0, bank_b self ! 3), (bank_b self ! 0, bank_b self ! 4),
              (bank_b self ! 0, bank_b self ! 5), (bank_b self ! 0, bank_b self ! 6),
              (bank_b self ! 0, bank_b self ! 7), (bank_b self ! 0, bank_b self ! 8),
              (bank_b self ! 0, bank_b self ! 9)])"
proof -
  have "fst (get_banks_to_close_by_name set_diff self 67)
      = Inr (ordered_plan set_diff self [1, 2, 64])"
    using plan_in_range [OF _ _ assms, of 67] by (simp add: active_values_67)
  moreover have "mset (ordered_plan set_diff self [1, 2, 64]) = mset (ascending_plan self [1, 2, 64])"
    using assms(3) by (rule ordered_plan_mset)
  ultimately show ?thesis
    unfolding quantize_67 solve_67 ascending_plan_67 [symmetric] by blast
qed

theorem decompose_67_witness:
  "get_banks_to_leave_open (even_bank @ odd_bank) (quantize 67) = (67, [1, 2, 64])
   \<and> (\<exists>plan. fst (get_banks_to_close_by_name table_order example_manager 67) = Inr plan
         \<and> mset plan = mset
            [(''b0'', ''b0engage''), (''b1'', ''b1engage''), (''b0'', ''b1''),
             (''b0'', ''b0r1''), (''b0'', ''b0r2''), (''b0'', ''b0r5''), (''b0'', ''b0r6''),
             (''b0'', ''b0r7''), (''b0'', ''b0r8''),
             (''b1'', ''b1r2''), (''b1'', ''b1r3''), (''b1'', ''b1r4''), (''b1'', ''b1r5''),
             (''b1'', ''b1r6''), (''b1'', ''b1r7''), (''b1'', ''b1r8'')])"
  using decompose_67 [OF example_lengths table_order_ok]
  by (simp add: example_manager_def)

text \<open>
  C8, as the specification states it, fails: with the sets enumerated in the order of
  \<open>table_order\<close>, a request of 0 ohms yields the bypass closure of 2 ohms (\<open>b0r4\<close>)
  before that of 1 ohm (\<open>b0r3\<close>), 32 before 8, and 256 before 128.
\<close>

theorem ascending_order_counterexample:
  "fst (get_banks_to_close_by_name table_order example_manager 0) =
     Inr [(''b0'', ''b0engage''), (''b1'', ''b1engage''), (''b0'', ''b1''),
          (''b0'', ''b0r1''), (''b0'', ''b0r2''), (''b0'', ''b0r4''), (''b0'', ''b0r3''),
          (''b0'', ''b0r5''), (''b0'', ''b0r8''), (''b0'', ''b0r6''), (''b0'', ''b0r7''),
          (''b1'', ''b1r1''), (''b1'', ''b1r3''), (''b1'', ''b1r2''), (''b1'', ''b1r4''),
          (''b1'', ''b1r5''), (''b1'', ''b1r6''), (''b1'', ''b1r7''), (''b1'', ''b1r8'')]
   \<and> fst (get_banks_to_close_by_name table_order example_manager 0)
       \<noteq> Inr (ascending_plan example_manager (active_values 0))"
proof -
  have "fst (get_banks_to_close_by_name table_order example_manager 0)
      = Inr (ordered_plan table_order example_manager [])"
    using plan_in_range [OF _ _ example_lengths table_order_ok, of 0]
    by (simp add: active_values_0)
  then show ?thesis
    unfolding active_values_0 table_plan_0 ascending_plan_0 by simp
qed

text \<open>
  C8, amended. For every request in range on a manager with complete bank layouts, the
  plan is the three unconditional closures (Bank A trunk to Bank A engage, Bank B trunk
  to Bank B engage, the bridge), then the bypass closures of Bank A, then those of
  Bank B; within a bank the bypass closures follow the order in which the runtime
  enumerates the set of values to close, each value of that set once.
\<close>

theorem plan_follows_set_order:
  assumes "0 \<le> r" and "r \<le> 16000"
    and "10 \<le> length (bank_a self)" and "10 \<le> length (bank_b self)"
    and "set_order_ok set_diff"
  shows "fst (get_banks_to_close_by_name set_diff self r) =
           Inr (unconditional self
                @ bypass_pairs (bank_a self) even_bank (set_diff even_bank (active_values r))
                @ bypass_pairs (bank_b self) odd_bank (set_diff odd_bank (active_values r)))
    \<and> distinct (set_diff even_bank (active_values r))
    \<and> set (set_diff even_bank (active_values r)) = set even_bank - set (active_values r)
    \<and> distinct (set_diff odd_bank (active_values r))
    \<and> set (set_diff odd_bank (active_values r)) = set odd_bank - set (active_values r)"
  using plan_in_range [OF assms] assms(5)
  by (simp add: ordered_plan_def set_order_ok_def)

theorem plan_follows_set_order_witness:
  "fst (get_banks_to_close_by_name table_order example_manager 67) =
     Inr (unconditional example_manager
          @ bypass_pairs (bank_a example_manager) even_bank (table_order even_bank [1, 2, 64])
          @ bypass_pairs (bank_b example_manager) odd_bank (table_order odd_bank [1, 2, 64]))
   \<and> table_order even_bank [1, 2, 64] = [1 / 4, 1 / 2, 4, 32, 8, 16]
   \<and> table_order odd_bank [1, 2, 64] = [256, 128, 512, 1024, 2048, 4096, 8192]"
proof -
  have "table_order even_bank [1, 2, 64] = [1 / 4, 1 / 2, 4, 32, 8, 16]"
    and "table_order odd_bank [1, 2, 64] = [256, 128, 512, 1024, 2048, 4096, 8192]"
    by (simp_all add: table_order_def even_bank_def odd_bank_def)
  then show ?thesis
    using plan_follows_set_order [OF _ _ example_lengths table_order_ok, of 67]
    by (simp add: active_values_67)
qed

text \<open>
  C9. Two calls of \<^verbatim>\<open>get_banks_to_close_by_name\<close> with the same request, the second on the
  instance the first one left behind, give the same result (the same pairs in the same
  order, or the same exception), and the second call leaves the instance as the first did.
  The result does not depend on what \<^verbatim>\<open>self.connections\<close> held before the call. The memo
  table is created inside \<^verbatim>\<open>get_banks_to_leave_open\<close> on every call; the enumeration
  order of a set is the same function of how the set was built in both calls.
\<close>

theorem encoding_is_repeatable:
  "(let (p1, s1) = get_banks_to_close_by_name set_diff self r;
        (p2, s2) = get_banks_to_close_by_name set_diff s1 r
    in p2 = p1 \<and> s2 = s1)
   \<and> fst (get_banks_to_close_by_name set_diff (self\<lparr>connections := c\<rparr>) r)
       = fst (get_banks_to_close_by_name set_diff self r)"
proof -
  have self: "self = self\<lparr>connections := connections self\<rparr>" by simp
  from get_banks_shape [of set_diff self r]
  obtain p where
    "(\<forall>c. get_banks_to_close_by_name set_diff (self\<lparr>connections := c\<rparr>) r
              = (p, self\<lparr>connections := c\<rparr>))
     \<or> (\<exists>conns. \<forall>c. get_banks_to_close_by_name set_diff (self\<lparr>connections := c\<rparr>) r
              = (p, self\<lparr>connections := conns\<rparr>))"
    by blast
  then show ?thesis
  proof
    assume a: "\<forall>c. get_banks_to_close_by_name set_diff (self\<lparr>connections := c\<rparr>) r
              = (p, self\<lparr>connections := c\<rparr>)"
    from a [rule_format, of "connections self"]
    have "get_banks_to_close_by_name set_diff self r = (p, self)" by simp
    with a show ?thesis by simp
  next
    assume "\<exists>conns. \<forall>c. get_banks_to_close_by_name set_diff (self\<lparr>connections := c\<rparr>) r
              = (p, self\<lparr>connections := conns\<rparr>)"
    then obtain conns where
      a: "\<forall>c. get_banks_to_close_by_name set_diff (self\<lparr>connections := c\<rparr>) r
              = (p, self\<lparr>connections := conns\<rparr>)" by blast
    from a [rule_format, of "connections self"]
    have "get_banks_to_close_by_name set_diff self r = (p, self\<lparr>connections := conns\<rparr>)"
      by simp
    with a show ?thesis by simp
  qed
qed

section \<open>Claims about clearing the channel\<close>

text \<open>
  C10. On a manager whose two banks are not empty, \<^verbatim>\<open>clearWholeChannel\<close> raises nothing and
  its calls on the session are, for each pair in turn (the trunk of Bank A with every
  other channel of Bank A, the trunk of Bank B with every other channel of Bank B, then
  the two trunks), one \<^verbatim>\<open>can_connect\<close> answering the state of the hardware at that
  moment, followed by a \<^verbatim>\<open>disconnect\<close> of that pair exactly when the answer is
  \<open>PATH_EXISTS\<close>. No disconnect is issued without that answer just before it.
\<close>

theorem clear_queries_then_disconnects:
  assumes "bank_a self \<noteq> []" and "bank_b self \<noteq> []"
  shows "\<exists>hw' calls. clearWholeChannel ni self (hw, []) = (None, hw', calls)
           \<and> guarded ni hw calls (pairs_to_clear self) \<and> hw' = replay ni hw calls"
  using clearWholeChannel_expected [OF assms, of ni hw] guarded_expected by simp

theorem clear_queries_then_disconnects_witness:
  "\<exists>hw' calls.
      clearWholeChannel example_session example_manager ({(''b0'', ''b0r3'')}, [])
        = (None, hw', calls)
      \<and> guarded example_session {(''b0'', ''b0r3'')} calls (pairs_to_clear example_manager)
      \<and> hw' = replay example_session {(''b0'', ''b0r3'')} calls"
  by (rule clear_queries_then_disconnects) (simp_all add: example_manager_def)

end
